theory Spec2Isabelle
  imports
    Main
    "HOL-Library.Word"
    "HOL-Library.AList"
    "HOL-Library.Char_ord"
    "HOL-Library.List_Lexorder"
begin

unbundle bit_operations_syntax

section \<open>The S3 write-ahead log: data model\<close>

text \<open>
  A Go \<open>uint64\<close> is a \<open>64 word\<close> (addition wraps), a \<open>[]byte\<close> is a list of
  \<open>8 word\<close>, a Go string is a \<open>string\<close> whose characters are bytes, ordered by
  their byte value as S3 orders object keys.
\<close>

type_synonym uint64 = "64 word"
type_synonym byte = "8 word"
type_synonym bytes = "byte list"

text \<open>\<open>type Record struct { Offset uint64; Data []byte }\<close>\<close>

record Record =
  Offset :: uint64
  Data :: bytes

text \<open>
  \<open>type S3WAL struct\<close>: the client is the environment of every operation (below), the
  mutex has no content in a sequential model, \<open>length\<close> is the last known offset.
\<close>

record S3WAL =
  bucketName :: string
  prefix :: string
  length_w :: uint64

text \<open>The two errors of \<open>strconv.ParseUint\<close>.\<close>

datatype num_error = ErrSyntax | ErrRange

text \<open>What the S3 client reports: the key does not exist, or the call itself failed.\<close>

datatype s3_error = NoSuchKey | Transport

text \<open>One constructor for each \<open>fmt.Errorf\<close>/\<open>errors.New\<close> of the package.\<close>

datatype error =
    InvalidKeyFormat string
  | ParseUintError string num_error
  | UnexpectedChecksumLength
  | PrepareBodyError error
  | PutObjectError uint64 s3_error
  | GetObjectError string s3_error
  | ReadBodyError string
  | RecordTooShort string
  | OffsetMismatch string uint64 uint64
  | ChecksumMismatch uint64 string
  | ListObjectsError s3_error
  | WALEmpty
  | ParseLastKeyError string error
  | ListRecoverError s3_error
  | ListTruncateError s3_error
  | DeleteObjectsError s3_error
  | DeleteObjectsErrors "(string \<times> string) list"

section \<open>Key encoding\<close>

text \<open>\<open>strings.Trim(prefix, "/")\<close> of \<open>NewS3WAL\<close>.\<close>

definition trim_slashes :: "string \<Rightarrow> string" where
  "trim_slashes s =
     rev (dropWhile (\<lambda>c. c = CHR ''/'') (rev (dropWhile (\<lambda>c. c = CHR ''/'') s)))"

definition NewS3WAL :: "string \<Rightarrow> string \<Rightarrow> S3WAL" where
  "NewS3WAL bucket pfx = \<lparr>bucketName = bucket, prefix = trim_slashes pfx, length_w = 0\<rparr>"

text \<open>The decimal digit of a value below ten.\<close>

definition digit_char :: "nat \<Rightarrow> char" where
  "digit_char d = ''0123456789'' ! d"

text \<open>\<open>%d\<close> of an unsigned value: its decimal digits, most significant first.\<close>

fun format_decimal :: "nat \<Rightarrow> string" where
  "format_decimal n =
     (if n < 10 then [digit_char n] else format_decimal (n div 10) @ [digit_char (n mod 10)])"

declare format_decimal.simps [simp del]

text \<open>\<open>fmt.Sprintf("%020d", offset)\<close>: zeros on the left up to width 20, never truncating.\<close>

definition sprintf_020d :: "nat \<Rightarrow> string" where
  "sprintf_020d n =
     replicate (20 - length (format_decimal n)) (CHR ''0'') @ format_decimal n"

definition getObjectKey :: "S3WAL \<Rightarrow> uint64 \<Rightarrow> string" where
  "getObjectKey w offset = prefix w @ ''/'' @ sprintf_020d (unat offset)"

text \<open>
  \<open>strings.LastIndexByte(key, '/')\<close>, as the part of the key behind the last slash;
  \<open>None\<close> is Go's \<open>-1\<close>.
\<close>

fun after_last_slash :: "string \<Rightarrow> string option" where
  "after_last_slash [] = None"
| "after_last_slash (c # cs) =
     (case after_last_slash cs of
        Some r \<Rightarrow> Some r
      | None \<Rightarrow> (if c = CHR ''/'' then Some cs else None))"

text \<open>
  The loop of \<open>strconv.ParseUint(s, 10, 64)\<close>: a byte that is no decimal digit is a
  syntax error; \<open>n >= cutoff\<close> (with \<open>cutoff = maxUint64/10 + 1\<close>) and a sum that wraps are
  range errors. In base 10 neither a sign nor an underscore is a digit.
\<close>

definition is_digit :: "char \<Rightarrow> bool" where
  "is_digit c \<longleftrightarrow> (48::nat) \<le> of_char c \<and> of_char c \<le> (57::nat)"

definition digit_val :: "char \<Rightarrow> uint64" where
  "digit_val c = of_nat (of_char c - (48::nat))"

definition cutoff :: uint64 where
  "cutoff = 1844674407370955162"

fun parse_loop :: "string \<Rightarrow> string \<Rightarrow> uint64 \<Rightarrow> error + uint64" where
  "parse_loop s0 [] n = Inr n"
| "parse_loop s0 (c # cs) n =
     (if \<not> is_digit c then Inl (ParseUintError s0 ErrSyntax)
      else if n \<ge> cutoff then Inl (ParseUintError s0 ErrRange)
      else (let n10 = n * 10; n1 = n10 + digit_val c
            in if n1 < n10 then Inl (ParseUintError s0 ErrRange)
               else parse_loop s0 cs n1))"

definition ParseUint :: "string \<Rightarrow> error + uint64" where
  "ParseUint s = (if s = [] then Inl (ParseUintError s ErrSyntax) else parse_loop s s 0)"

definition getOffsetFromKey :: "string \<Rightarrow> error + uint64" where
  "getOffsetFromKey key =
     (case after_last_slash key of
        None \<Rightarrow> Inl (InvalidKeyFormat key)
      | Some numStr \<Rightarrow>
          (if numStr = [] then Inl (InvalidKeyFormat key) else ParseUint numStr))"

section \<open>SHA-256 (\<open>crypto/sha256\<close>, FIPS 180-4)\<close>

type_synonym uint32 = "32 word"

definition be32 :: "uint32 \<Rightarrow> bytes" where
  "be32 x = [ucast (drop_bit 24 x), ucast (drop_bit 16 x), ucast (drop_bit 8 x), ucast x]"

definition be64 :: "uint64 \<Rightarrow> bytes" where
  "be64 x =
     [ucast (drop_bit 56 x), ucast (drop_bit 48 x), ucast (drop_bit 40 x), ucast (drop_bit 32 x),
      ucast (drop_bit 24 x), ucast (drop_bit 16 x), ucast (drop_bit 8 x), ucast x]"

definition Ch :: "uint32 \<Rightarrow> uint32 \<Rightarrow> uint32 \<Rightarrow> uint32" where
  "Ch x y z = (x AND y) XOR (NOT x AND z)"

definition Maj :: "uint32 \<Rightarrow> uint32 \<Rightarrow> uint32 \<Rightarrow> uint32" where
  "Maj x y z = (x AND y) XOR (x AND z) XOR (y AND z)"

definition bsig0 :: "uint32 \<Rightarrow> uint32" where
  "bsig0 x = word_rotr 2 x XOR word_rotr 13 x XOR word_rotr 22 x"

definition bsig1 :: "uint32 \<Rightarrow> uint32" where
  "bsig1 x = word_rotr 6 x XOR word_rotr 11 x XOR word_rotr 25 x"

definition ssig0 :: "uint32 \<Rightarrow> uint32" where
  "ssig0 x = word_rotr 7 x XOR word_rotr 18 x XOR drop_bit 3 x"

definition ssig1 :: "uint32 \<Rightarrow> uint32" where
  "ssig1 x = word_rotr 17 x XOR word_rotr 19 x XOR drop_bit 10 x"

text \<open>
  The constants of the standard by their definition: the first 32 bits of the fractional
  part of the cube root (round constants) and of the square root (initial state) of the
  first primes. \<open>iroot k n\<close> is the integer \<open>k\<close>-th root, by bisection.
\<close>

function iroot_between :: "nat \<Rightarrow> nat \<Rightarrow> nat \<Rightarrow> nat \<Rightarrow> nat" where
  "iroot_between k n lo hi =
     (if hi \<le> Suc lo then lo
      else (let mid = (lo + hi) div 2
            in if mid ^ k \<le> n then iroot_between k n mid hi else iroot_between k n lo mid))"
  by pat_completeness auto
termination
  by (relation "measure (\<lambda>(k, n, lo, hi). hi - lo)") auto

declare iroot_between.simps [simp del]

definition iroot :: "nat \<Rightarrow> nat \<Rightarrow> nat" where
  "iroot k n = iroot_between k n 0 (Suc n)"

definition is_prime :: "nat \<Rightarrow> bool" where
  "is_prime p \<longleftrightarrow> 2 \<le> p \<and> (\<forall>d \<in> set [2..<p]. p mod d \<noteq> 0)"

definition first_primes :: "nat \<Rightarrow> nat list" where
  "first_primes n = take n (filter is_prime [2..<312])"

definition frac_root_bits :: "nat \<Rightarrow> nat \<Rightarrow> uint32" where
  "frac_root_bits k p = of_nat (iroot k (p * 2 ^ (32 * k)))"

definition sha256_K :: "uint32 list" where
  "sha256_K = map (frac_root_bits 3) (first_primes 64)"

type_synonym sha_state =
  "uint32 \<times> uint32 \<times> uint32 \<times> uint32 \<times> uint32 \<times> uint32 \<times> uint32 \<times> uint32"

definition sha256_init :: sha_state where
  "sha256_init =
     (case map (frac_root_bits 2) (first_primes 8) of
        [a, b, c, d, e, f, g, h] \<Rightarrow> (a, b, c, d, e, f, g, h)
      | _ \<Rightarrow> (0, 0, 0, 0, 0, 0, 0, 0))"

text \<open>The padded message: a one bit, zeros, and the length in bits as 64 bits.\<close>

definition sha256_pad :: "bytes \<Rightarrow> bytes" where
  "sha256_pad m =
     m @ [0x80] @ replicate ((119 - length m mod 64) mod 64) 0 @ be64 (of_nat (8 * length m))"

fun be_words :: "bytes \<Rightarrow> uint32 list" where
  "be_words (a # b # c # d # rest) =
     (push_bit 24 (ucast a) OR push_bit 16 (ucast b) OR push_bit 8 (ucast c) OR ucast d)
       # be_words rest"
| "be_words _ = []"

text \<open>The message schedule, extended by \<open>n\<close> words.\<close>

fun schedule :: "nat \<Rightarrow> uint32 list \<Rightarrow> uint32 list" where
  "schedule 0 ws = ws"
| "schedule (Suc n) ws =
     (let t = length ws
      in schedule n (ws @ [ssig1 (ws ! (t - 2)) + ws ! (t - 7) + ssig0 (ws ! (t - 15)) + ws ! (t - 16)]))"

definition sha256_round :: "uint32 \<times> uint32 \<Rightarrow> sha_state \<Rightarrow> sha_state" where
  "sha256_round kw st =
     (case st of (a, b, c, d, e, f, g, h) \<Rightarrow>
        (let t1 = h + bsig1 e + Ch e f g + fst kw + snd kw;
             t2 = bsig0 a + Maj a b c
         in (t1 + t2, a, b, c, d + t1, e, f, g)))"

definition sha256_block :: "sha_state \<Rightarrow> bytes \<Rightarrow> sha_state" where
  "sha256_block st blk =
     (case st of (a, b, c, d, e, f, g, h) \<Rightarrow>
        (case fold sha256_round (zip sha256_K (schedule 48 (be_words blk))) st of
           (a', b', c', d', e', f', g', h') \<Rightarrow>
             (a + a', b + b', c + c', d + d', e + e', f + f', g + g', h + h')))"

fun sha256_blocks :: "nat \<Rightarrow> sha_state \<Rightarrow> bytes \<Rightarrow> sha_state" where
  "sha256_blocks 0 st m = st"
| "sha256_blocks (Suc n) st m = sha256_blocks n (sha256_block st (take 64 m)) (drop 64 m)"

definition sha256 :: "bytes \<Rightarrow> bytes" where
  "sha256 m =
     (let p = sha256_pad m
      in case sha256_blocks (length p div 64) sha256_init p of
           (a, b, c, d, e, f, g, h) \<Rightarrow>
             be32 a @ be32 b @ be32 c @ be32 d @ be32 e @ be32 f @ be32 g @ be32 h)"

section \<open>Record framing\<close>

text \<open>
  \<open>prepareBody\<close>: offset and data go to the buffer and to the hasher, then the
  checksum is appended. A \<open>bytes.Buffer\<close> and a hash never fail a write, so the two write
  errors have no branch; the checksum length check is kept.
\<close>

definition prepareBody :: "uint64 \<Rightarrow> bytes \<Rightarrow> error + bytes" where
  "prepareBody offset data =
     (let buf = be64 offset @ data;
          checksum = sha256 (be64 offset @ data)
      in if length checksum \<noteq> 32 then Inl UnexpectedChecksumLength
         else Inr (buf @ checksum))"

definition validateChecksum :: "bytes \<Rightarrow> bool" where
  "validateChecksum full =
     (if length full < 32 then False
      else (let dataPart = take (length full - 32) full;
                stored = drop (length full - 32) full
            in sha256 dataPart = stored))"

text \<open>\<open>binary.Read\<close> of a big-endian \<open>uint64\<close>.\<close>

definition from_be64 :: "bytes \<Rightarrow> uint64" where
  "from_be64 bs = foldl (\<lambda>acc b. push_bit 8 acc OR ucast b) 0 bs"

text \<open>
  The part of \<open>Read\<close> behind the download: length, embedded offset, checksum, payload.
  \<open>binary.Read\<close> on the eight bytes \<open>data[:8]\<close> cannot fail, so that error has no branch.
\<close>

definition parseRecord :: "string \<Rightarrow> uint64 \<Rightarrow> bytes \<Rightarrow> error + Record" where
  "parseRecord key offset data =
     (if length data < 8 + 32 then Inl (RecordTooShort key)
      else (let storedOffset = from_be64 (take 8 data)
            in if storedOffset \<noteq> offset then Inl (OffsetMismatch key offset storedOffset)
               else if \<not> validateChecksum data then Inl (ChecksumMismatch offset key)
               else Inr \<lparr>Offset = storedOffset,
                         Data = take (length data - 8 - 32) (drop 8 data)\<rparr>))"

section \<open>The object store\<close>

text \<open>
  The bucket named by \<open>bucketName\<close>: its objects as an association list from key to body
  (\<open>map_of\<close> reads it). The client's behaviour that the engine does not control is an
  environment: how many keys a listing page holds (0: no limit), which calls fail, and
  what a failing call has done all the same. A put that reports an error may have stored
  the object (\<open>put_lands\<close>), and a delete that reports an error may have removed some of
  the keys it was given (\<open>delete_lands\<close>).
\<close>

type_synonym bucket = "(string \<times> bytes) list"

record s3_env =
  max_keys :: nat
  put_fails :: "string \<Rightarrow> bool"
  put_lands :: "string \<Rightarrow> bool"
  get_fails :: "string \<Rightarrow> bool"
  body_fails :: "string \<Rightarrow> bool"
  list_fails :: "nat \<Rightarrow> bool"
  delete_fails :: "string list \<Rightarrow> bool"
  delete_lands :: "string list \<Rightarrow> string list"
  delete_errors :: "string list \<Rightarrow> (string \<times> string) list"

definition PutObject :: "s3_env \<Rightarrow> bucket \<Rightarrow> string \<Rightarrow> bytes \<Rightarrow> (s3_error + unit) \<times> bucket" where
  "PutObject env b key body =
     (if put_fails env key
      then (Inl Transport, if put_lands env key then AList.update key body b else b)
      else (Inr (), AList.update key body b))"

definition GetObject :: "s3_env \<Rightarrow> bucket \<Rightarrow> string \<Rightarrow> s3_error + bytes" where
  "GetObject env b key =
     (if get_fails env key then Inl Transport
      else case map_of b key of None \<Rightarrow> Inl NoSuchKey | Some body \<Rightarrow> Inr body)"

definition has_prefix :: "string \<Rightarrow> string \<Rightarrow> bool" where
  "has_prefix p k \<longleftrightarrow> take (length p) k = p"

text \<open>The keys under a prefix, in the order S3 lists them: ascending by bytes.\<close>

definition list_keys :: "bucket \<Rightarrow> string \<Rightarrow> string list" where
  "list_keys b p = sort (remdups (filter (has_prefix p) (map fst b)))"

function paginate :: "nat \<Rightarrow> 'a list \<Rightarrow> 'a list list" where
  "paginate n xs =
     (if n = 0 \<or> length xs \<le> n then [xs] else take n xs # paginate n (drop n xs))"
  by pat_completeness auto
termination
  by (relation "measure (\<lambda>(n, xs). length xs)") auto

declare paginate.simps [simp del]

text \<open>
  The pages a \<open>ListObjectsV2Paginator\<close> yields: at least one, the first one empty when
  no key matches. The page token is a position in key order, so the pages are those of
  the listing at the first request.
\<close>

definition ListObjectsV2 :: "s3_env \<Rightarrow> bucket \<Rightarrow> string \<Rightarrow> string list list" where
  "ListObjectsV2 env b p = paginate (max_keys env) (list_keys b p)"

text \<open>
  \<open>DeleteObjects\<close>: the call fails as a whole, having removed those of its keys that
  the environment names, or it removes every key but those it reports an error for.
\<close>

definition DeleteObjects ::
  "s3_env \<Rightarrow> bucket \<Rightarrow> string list \<Rightarrow> (s3_error + (string \<times> string) list) \<times> bucket" where
  "DeleteObjects env b keys =
     (if delete_fails env keys
      then (Inl Transport,
            filter (\<lambda>kv. \<not> (fst kv \<in> set keys \<and> fst kv \<in> set (delete_lands env keys))) b)
      else (let errs = delete_errors env keys
            in (Inr errs,
                filter (\<lambda>kv. fst kv \<notin> set keys \<or> fst kv \<in> set (map fst errs)) b)))"

section \<open>The log engine\<close>

definition Append ::
  "s3_env \<Rightarrow> S3WAL \<Rightarrow> bucket \<Rightarrow> bytes \<Rightarrow> (error + uint64) \<times> S3WAL \<times> bucket" where
  "Append env w b data =
     (let next = length_w w + 1
      in case prepareBody next data of
           Inl err \<Rightarrow> (Inl (PrepareBodyError err), w, b)
         | Inr body \<Rightarrow>
             (case PutObject env b (getObjectKey w next) body of
                (Inl err, b') \<Rightarrow> (Inl (PutObjectError next err), w, b')
              | (Inr _, b') \<Rightarrow> (Inr next, w\<lparr>length_w := next\<rparr>, b')))"

definition Read :: "s3_env \<Rightarrow> S3WAL \<Rightarrow> bucket \<Rightarrow> uint64 \<Rightarrow> error + Record" where
  "Read env w b offset =
     (let key = getObjectKey w offset
      in case GetObject env b key of
           Inl err \<Rightarrow> Inl (GetObjectError key err)
         | Inr data \<Rightarrow>
             (if body_fails env key then Inl (ReadBodyError key)
              else parseRecord key offset data))"

text \<open>The listing loop of \<open>LastRecord\<close>: the last key of the last page that has one.\<close>

fun last_key_pages :: "s3_env \<Rightarrow> nat \<Rightarrow> string list list \<Rightarrow> string \<Rightarrow> error + string" where
  "last_key_pages env i [] lastKey = Inr lastKey"
| "last_key_pages env i (page # rest) lastKey =
     (if list_fails env i then Inl (ListObjectsError Transport)
      else last_key_pages env (Suc i) rest (if length page > 0 then last page else lastKey))"

definition LastRecord :: "s3_env \<Rightarrow> S3WAL \<Rightarrow> bucket \<Rightarrow> (error + Record) \<times> S3WAL" where
  "LastRecord env w b =
     (case last_key_pages env 0 (ListObjectsV2 env b (prefix w @ ''/'')) [] of
        Inl err \<Rightarrow> (Inl err, w)
      | Inr lastKey \<Rightarrow>
          (if lastKey = [] then (Inl WALEmpty, w\<lparr>length_w := 0\<rparr>)
           else case getOffsetFromKey lastKey of
                  Inl err \<Rightarrow> (Inl (ParseLastKeyError lastKey err), w)
                | Inr offset \<Rightarrow>
                    (let w' = w\<lparr>length_w := offset\<rparr>
                     in (Read env w' b offset, w'))))"

text \<open>
  The loops of \<open>Recover\<close>. A listed object always carries its key, so the guard on an
  empty object or a nil key is never taken.
\<close>

fun recover_objs :: "string list \<Rightarrow> uint64 \<Rightarrow> uint64" where
  "recover_objs [] maxOffset = maxOffset"
| "recover_objs (key # objs) maxOffset =
     (case getOffsetFromKey key of
        Inl err \<Rightarrow> recover_objs objs maxOffset
      | Inr offset \<Rightarrow> recover_objs objs (if offset > maxOffset then offset else maxOffset))"

fun recover_pages :: "s3_env \<Rightarrow> nat \<Rightarrow> string list list \<Rightarrow> uint64 \<Rightarrow> error + uint64" where
  "recover_pages env i [] maxOffset = Inr maxOffset"
| "recover_pages env i (page # rest) maxOffset =
     (if list_fails env i then Inl (ListRecoverError Transport)
      else recover_pages env (Suc i) rest (recover_objs page maxOffset))"

definition Recover :: "s3_env \<Rightarrow> S3WAL \<Rightarrow> bucket \<Rightarrow> (error + uint64) \<times> S3WAL" where
  "Recover env w b =
     (case recover_pages env 0 (ListObjectsV2 env b (prefix w @ ''/'')) 0 of
        Inl err \<Rightarrow> (Inl err, w)
      | Inr maxOffset \<Rightarrow> (Inr maxOffset, w\<lparr>length_w := maxOffset\<rparr>))"

definition batchDelete :: "s3_env \<Rightarrow> bucket \<Rightarrow> string list \<Rightarrow> (error + unit) \<times> bucket" where
  "batchDelete env b keys =
     (if length keys = 0 then (Inr (), b)
      else case DeleteObjects env b keys of
             (Inl err, b') \<Rightarrow> (Inl (DeleteObjectsError err), b')
           | (Inr errs, b') \<Rightarrow>
               (if length errs > 0 then (Inl (DeleteObjectsErrors errs), b')
                else (Inr (), b')))"

text \<open>
  The loops of \<open>Truncate\<close>, with \<open>keysToDelete\<close> and the bucket as they stand: a full
  batch of 1000 keys is deleted at once.
\<close>

fun truncate_objs ::
  "s3_env \<Rightarrow> uint64 \<Rightarrow> string list \<Rightarrow> string list \<Rightarrow> bucket \<Rightarrow> (error + string list) \<times> bucket" where
  "truncate_objs env afterOffset [] keysToDelete b = (Inr keysToDelete, b)"
| "truncate_objs env afterOffset (key # objs) keysToDelete b =
     (case getOffsetFromKey key of
        Inl err \<Rightarrow> truncate_objs env afterOffset objs keysToDelete b
      | Inr offset \<Rightarrow>
          (let keysToDelete' = (if offset > afterOffset then keysToDelete @ [key] else keysToDelete)
           in if length keysToDelete' = 1000
              then (case batchDelete env b keysToDelete' of
                      (Inl err, b') \<Rightarrow> (Inl err, b')
                    | (Inr _, b') \<Rightarrow> truncate_objs env afterOffset objs [] b')
              else truncate_objs env afterOffset objs keysToDelete' b))"

fun truncate_pages ::
  "s3_env \<Rightarrow> uint64 \<Rightarrow> nat \<Rightarrow> string list list \<Rightarrow> string list \<Rightarrow> bucket
     \<Rightarrow> (error + string list) \<times> bucket" where
  "truncate_pages env afterOffset i [] keysToDelete b = (Inr keysToDelete, b)"
| "truncate_pages env afterOffset i (page # rest) keysToDelete b =
     (if list_fails env i then (Inl (ListTruncateError Transport), b)
      else case truncate_objs env afterOffset page keysToDelete b of
             (Inl err, b') \<Rightarrow> (Inl err, b')
           | (Inr keysToDelete', b') \<Rightarrow>
               truncate_pages env afterOffset (Suc i) rest keysToDelete' b')"

definition Truncate ::
  "s3_env \<Rightarrow> S3WAL \<Rightarrow> bucket \<Rightarrow> uint64 \<Rightarrow> (error + unit) \<times> S3WAL \<times> bucket" where
  "Truncate env w b afterOffset =
     (case truncate_pages env afterOffset 0 (ListObjectsV2 env b (prefix w @ ''/'')) [] b of
        (Inl err, b') \<Rightarrow> (Inl err, w, b')
      | (Inr keysToDelete, b') \<Rightarrow>
          (case (if length keysToDelete > 0 then batchDelete env b' keysToDelete
                 else (Inr (), b')) of
             (Inl err, b'') \<Rightarrow> (Inl err, w, b'')
           | (Inr _, b'') \<Rightarrow>
               (Inr (),
                w\<lparr>length_w := (if afterOffset = 0 then 0 else afterOffset)\<rparr>,
                b'')))"

section \<open>Environments and inputs\<close>

text \<open>Some of the first \<open>n\<close> page requests of a listing fails.\<close>

definition list_fault :: "s3_env \<Rightarrow> nat \<Rightarrow> bool" where
  "list_fault env n \<longleftrightarrow> (\<exists>j<n. list_fails env j)"

text \<open>An environment in which every call of the client is answered.\<close>

definition no_faults :: s3_env where
  "no_faults =
     \<lparr>max_keys = 1000, put_fails = (\<lambda>_. False), put_lands = (\<lambda>_. False),
      get_fails = (\<lambda>_. False), body_fails = (\<lambda>_. False), list_fails = (\<lambda>_. False),
      delete_fails = (\<lambda>_. False), delete_lands = (\<lambda>_. []), delete_errors = (\<lambda>_. [])\<rparr>"

text \<open>An environment whose delete calls all go through, without errors for single keys.\<close>

definition deletes_ok :: "s3_env \<Rightarrow> bool" where
  "deletes_ok env \<longleftrightarrow> (\<forall>ks. \<not> delete_fails env ks \<and> delete_errors env ks = [])"

text \<open>
  A bucket with two records of the log, a key under the prefix that is no offset, and a
  key of another prefix.
\<close>

definition demo_bucket :: bucket where
  "demo_bucket =
     [(''wal/00000000000000000002'', be64 2 @ [6] @ sha256 (be64 2 @ [6])),
      (''wal/zzz'', []),
      (''other/7'', []),
      (''wal/00000000000000000001'', be64 1 @ [5] @ sha256 (be64 1 @ [5]))]"

section \<open>Runs of the engine\<close>










section \<open>Auxiliary functions of the proofs\<close>

text \<open>The \<open>k\<close> lowest decimal digits of \<open>n\<close>, most significant first.\<close>

fun zpad :: "nat \<Rightarrow> nat \<Rightarrow> string" where
  "zpad 0 n = []"
| "zpad (Suc k) n = zpad k (n div 10) @ [digit_char (n mod 10)]"

text \<open>The listed keys that \<open>Truncate\<close> selects, and a bucket without some keys.\<close>

definition beyond :: "uint64 \<Rightarrow> string \<Rightarrow> bool" where
  "beyond afterOffset key =
     (case getOffsetFromKey key of Inl err \<Rightarrow> False | Inr offset \<Rightarrow> offset > afterOffset)"

definition remove_keys :: "string list \<Rightarrow> bucket \<Rightarrow> bucket" where
  "remove_keys ks b = filter (\<lambda>kv. fst kv \<notin> set ks) b"

section \<open>Key encoding: round trip and order\<close>

lemma length_zpad [simp]: "length (zpad k n) = k"
  by (induction k arbitrary: n) auto

lemma zpad_zero: "zpad k 0 = replicate k (CHR ''0'')"
  by (induction k) (auto simp: digit_char_def replicate_append_same)

lemma format_decimal_small: "n < 10 \<Longrightarrow> format_decimal n = [digit_char n]"
  by (subst format_decimal.simps) simp

lemma format_decimal_large:
  "\<not> n < 10 \<Longrightarrow> format_decimal n = format_decimal (n div 10) @ [digit_char (n mod 10)]"
  by (subst format_decimal.simps) simp

lemma div10_less: "(n::nat) < 10 ^ Suc k \<Longrightarrow> n div 10 < 10 ^ k"
  by (simp add: less_mult_imp_div_less mult.commute)

lemma length_format_decimal: "n < 10 ^ k \<Longrightarrow> 0 < k \<Longrightarrow> length (format_decimal n) \<le> k"
proof (induction k arbitrary: n)
  case 0 then show ?case by simp
next
  case (Suc k)
  show ?case
  proof (cases "n < 10")
    case True then show ?thesis by (simp add: format_decimal_small)
  next
    case False
    with Suc.prems have k: "0 < k" by (cases k) auto
    from Suc.prems have "n div 10 < 10 ^ k" by (simp add: div10_less)
    with Suc.IH k have "length (format_decimal (n div 10)) \<le> k" by simp
    with False show ?thesis by (simp add: format_decimal_large)
  qed
qed

lemma sprintf_zpad: "n < 10 ^ k \<Longrightarrow> 0 < k \<Longrightarrow>
   replicate (k - length (format_decimal n)) (CHR ''0'') @ format_decimal n = zpad k n"
proof (induction k arbitrary: n)
  case 0 then show ?case by simp
next
  case (Suc k)
  show ?case
  proof (cases "n < 10")
    case True then show ?thesis by (simp add: format_decimal_small zpad_zero)
  next
    case False
    with Suc.prems have k: "0 < k" by (cases k) auto
    from Suc.prems have d: "n div 10 < 10 ^ k" by (simp add: div10_less)
    have l: "length (format_decimal (n div 10)) \<le> k" using length_format_decimal[OF d k] .
    show ?thesis using Suc.IH[OF d k] l False by (simp add: Suc_diff_le format_decimal_large)
  qed
qed

lemma sprintf_020d_zpad: "n < 2 ^ 64 \<Longrightarrow> sprintf_020d n = zpad 20 n"
proof -
  assume "n < 2 ^ 64"
  then have "n < 10 ^ 20" by simp
  then show ?thesis unfolding sprintf_020d_def by (rule sprintf_zpad) simp
qed

lemma digit_char_of: "d < 10 \<Longrightarrow> of_char (digit_char d) = (48::nat) + d"
proof -
  assume "d < 10"
  then have "d \<in> {0,1,2,3,4,5,6,7,8,9}" by auto
  then show ?thesis by (auto simp: digit_char_def)
qed

lemma is_digit_digit_char: "d < 10 \<Longrightarrow> is_digit (digit_char d)"
  by (simp add: is_digit_def digit_char_of)

lemma digit_val_digit_char: "d < 10 \<Longrightarrow> digit_val (digit_char d) = of_nat d"
  by (simp add: digit_val_def digit_char_of)

lemma digit_char_not_slash: "d < 10 \<Longrightarrow> digit_char d \<noteq> CHR ''/''"
proof
  assume "d < 10" "digit_char d = CHR ''/''"
  then have "(48::nat) + d = of_char (CHR ''/'')" using digit_char_of by metis
  then show False by simp
qed

lemma digit_char_mono: "a < b \<Longrightarrow> b < 10 \<Longrightarrow> digit_char a < digit_char b"
  by (simp add: less_char_def digit_char_of)


lemma unat_of_nat64: "n < 2 ^ 64 \<Longrightarrow> unat (of_nat n :: uint64) = n"
  by (simp add: unat_of_nat)

lemma parse_loop_append:
  "parse_loop s0 (xs @ ys) n =
     (case parse_loop s0 xs n of Inl e \<Rightarrow> Inl e | Inr m \<Rightarrow> parse_loop s0 ys m)"
  by (induction xs arbitrary: n) (auto simp: Let_def)

lemma parse_digit:
  assumes "n < 2 ^ 64"
  shows "parse_loop s0 [digit_char (n mod 10)] (of_nat (n div 10)) = Inr (of_nat n)"
proof -
  let ?q = "of_nat (n div 10) :: uint64"
  let ?d = "of_nat (n mod 10) :: uint64"
  have q: "n div 10 < 1844674407370955162" using assms by simp
  have uq: "unat ?q = n div 10" using q by (intro unat_of_nat64) simp
  have "unat ?q < unat cutoff" using uq q by (simp add: cutoff_def)
  then have c: "\<not> cutoff \<le> ?q" by (simp add: word_le_nat_alt)
  have "(of_nat n :: uint64) = of_nat (n div 10 * 10 + n mod 10)" by simp
  also have "\<dots> = ?q * 10 + ?d" by (simp only: of_nat_add of_nat_mult of_nat_numeral)
  finally have s: "?q * 10 + ?d = of_nat n" by simp
  have "n div 10 * 10 < 2 ^ 64" using assms by simp
  then have "unat (of_nat (n div 10 * 10) :: uint64) = n div 10 * 10" by (rule unat_of_nat64)
  then have u10: "unat (?q * 10) = (n div 10) * 10" by simp
  have un: "unat (of_nat n :: uint64) = n" using assms by (rule unat_of_nat64)
  have "unat (?q * 10) \<le> unat (of_nat n :: uint64)" unfolding u10 un by simp
  then have w: "\<not> (?q * 10 + ?d < ?q * 10)" unfolding s by (simp add: word_less_nat_alt)
  have m: "n mod 10 < 10" by simp
  show ?thesis
    using c w s by (simp add: Let_def is_digit_digit_char[OF m] digit_val_digit_char[OF m])
qed

lemma parse_loop_zpad:
  "n < 10 ^ k \<Longrightarrow> n < 2 ^ 64 \<Longrightarrow> parse_loop s0 (zpad k n) 0 = Inr (of_nat n)"
proof (induction k arbitrary: n)
  case 0 then show ?case by simp
next
  case (Suc k)
  have d: "n div 10 < 2 ^ 64" using Suc.prems by simp
  have d': "n div 10 < 10 ^ k" using Suc.prems by (simp add: div10_less)
  show ?case
    using Suc.IH[OF d' d] parse_digit[OF Suc.prems(2), of s0]
    by (simp add: parse_loop_append)
qed

lemma zpad_digits: "CHR ''/'' \<notin> set (zpad k n)"
proof (induction k arbitrary: n)
  case 0 then show ?case by simp
next
  case (Suc k)
  have "digit_char (n mod 10) \<noteq> CHR ''/''" by (rule digit_char_not_slash) simp
  with Suc.IH show ?case by auto
qed

lemma after_last_slash_None: "CHR ''/'' \<notin> set xs \<Longrightarrow> after_last_slash xs = None"
  by (induction xs) auto

lemma after_last_slash_append:
  "CHR ''/'' \<notin> set ds \<Longrightarrow> after_last_slash (p @ CHR ''/'' # ds) = Some ds"
  by (induction p) (auto simp: after_last_slash_None)

lemma getOffsetFromKey_getObjectKey: "getOffsetFromKey (getObjectKey w offset) = Inr offset"
proof -
  let ?n = "unat offset"
  have n: "?n < 2 ^ 64" using unsigned_less[of offset, where 'a=nat] by simp
  then have n': "?n < 10 ^ 20" by simp
  have k: "getObjectKey w offset = prefix w @ CHR ''/'' # zpad 20 ?n"
    by (simp add: getObjectKey_def sprintf_020d_zpad[OF n])
  have ns: "CHR ''/'' \<notin> set (zpad 20 ?n)" using zpad_digits by blast
  have ne: "zpad 20 ?n \<noteq> []" by (metis length_zpad list.size(3) zero_neq_numeral)
  show ?thesis
    unfolding k getOffsetFromKey_def after_last_slash_append[OF ns]
    using ne parse_loop_zpad[OF n' n] by (simp add: ParseUint_def)
qed

lemma snoc_less_snoc:
  "length xs = length ys \<Longrightarrow> xs @ [a] < ys @ [b] \<longleftrightarrow> xs < ys \<or> xs = ys \<and> a < b"
  by (induction xs ys rule: list_induct2) auto

lemma zpad_mono: "a < b \<Longrightarrow> b < 10 ^ k \<Longrightarrow> zpad k a < zpad k b"
proof (induction k arbitrary: a b)
  case 0 then show ?case by simp
next
  case (Suc k)
  have b: "b div 10 < 10 ^ k" using Suc.prems by (simp add: div10_less)
  have "a div 10 < b div 10 \<or> a div 10 = b div 10 \<and> a mod 10 < b mod 10"
    using Suc.prems(1) by (metis div_le_mono le_neq_implies_less less_imp_le mod_div_decomp nat_add_left_cancel_less)
  then show ?case
  proof
    assume "a div 10 < b div 10"
    then have "zpad k (a div 10) < zpad k (b div 10)" using Suc.IH b by blast
    then show ?thesis by (simp add: snoc_less_snoc)
  next
    assume h: "a div 10 = b div 10 \<and> a mod 10 < b mod 10"
    then have "digit_char (a mod 10) < digit_char (b mod 10)" by (intro digit_char_mono) simp_all
    with h show ?thesis by (simp add: snoc_less_snoc)
  qed
qed

lemma append_less_append: "p @ xs < p @ ys \<longleftrightarrow> xs < (ys :: 'a :: linorder list)"
  by (induction p) auto

lemma getObjectKey_mono: "a < b \<Longrightarrow> getObjectKey w a < getObjectKey w b"
proof -
  assume ab: "a < b"
  have a: "unat a < 2 ^ 64" using unsigned_less[of a, where 'a=nat] by simp
  have b: "unat b < 2 ^ 64" using unsigned_less[of b, where 'a=nat] by simp
  then have b': "unat b < 10 ^ 20" by simp
  have "unat a < unat b" using ab by (simp add: word_less_nat_alt)
  then have "zpad 20 (unat a) < zpad 20 (unat b)" using b' by (rule zpad_mono)
  then show ?thesis
    by (simp add: getObjectKey_def sprintf_020d_zpad[OF a] sprintf_020d_zpad[OF b] append_less_append)
qed

text \<open>
  C5: decoding the key of an offset gives the offset back, for every \<open>uint64\<close> offset and
  every prefix, and the keys of two offsets compare, byte by byte, as the offsets do.
\<close>

theorem key_encoding_roundtrip_order:
  "getOffsetFromKey (getObjectKey w x) = Inr x \<and>
   (getObjectKey w a < getObjectKey w b \<longleftrightarrow> a < b)"
proof -
  have "getObjectKey w a < getObjectKey w b \<longleftrightarrow> a < b"
  proof
    assume l: "getObjectKey w a < getObjectKey w b"
    show "a < b"
    proof (rule ccontr)
      assume "\<not> a < b"
      then have "b < a \<or> b = a" by auto
      then have "getObjectKey w b \<le> getObjectKey w a"
        using getObjectKey_mono[of b a w] by auto
      with l show False by simp
    qed
  qed (rule getObjectKey_mono)
  then show ?thesis by (simp add: getOffsetFromKey_getObjectKey)
qed

section \<open>Record framing: round trip\<close>

lemma length_be32 [simp]: "length (be32 x) = 4"
  by (simp add: be32_def)

lemma length_be64 [simp]: "length (be64 x) = 8"
  by (simp add: be64_def)

lemma length_sha256 [simp]: "length (sha256 m) = 32"
  by (simp add: sha256_def Let_def split: prod.splits)

lemma be_step:
  "push_bit 8 (drop_bit (k + 8) x) OR ucast (ucast (drop_bit k x) :: byte) = (drop_bit k x :: uint64)"
proof (rule bit_word_eqI)
  fix n assume n: "n < LENGTH(64)"
  show "bit (push_bit 8 (drop_bit (k + 8) x) OR ucast (ucast (drop_bit k x) :: byte)) n = bit (drop_bit k x) n"
  proof (cases "n < 8")
    case True then show ?thesis by (simp add: bit_simps)
  next
    case False
    then have "n - 8 + (k + 8) = k + n" by simp
    with False n show ?thesis by (simp add: bit_simps add.commute)
  qed
qed

lemma from_be64_be64 [simp]: "from_be64 (be64 x) = x"
proof -
  have z: "drop_bit 64 x = 0" by (simp add: drop_bit_eq_zero_iff_not_bit_last) 
  have "from_be64 (be64 x) = drop_bit 0 x"
    unfolding from_be64_def be64_def foldl.simps
    using be_step[of 56 x] be_step[of 48 x] be_step[of 40 x] be_step[of 32 x]
     be_step[of 24 x] be_step[of 16 x] be_step[of 8 x] be_step[of 0 x] z
    by simp
  then show ?thesis by simp
qed

lemma prepareBody_eq:
  "prepareBody offset data = Inr (be64 offset @ data @ sha256 (be64 offset @ data))"
  by (simp add: prepareBody_def Let_def)

lemma validateChecksum_framed: "validateChecksum (m @ sha256 m)"
  by (simp add: validateChecksum_def Let_def)

lemma parseRecord_framed:
  "parseRecord key offset (be64 offset @ data @ sha256 (be64 offset @ data)) =
     Inr \<lparr>Offset = offset, Data = data\<rparr>"
proof -
  have v: "validateChecksum (be64 offset @ data @ sha256 (be64 offset @ data))"
    using validateChecksum_framed[of "be64 offset @ data"] by simp
  show ?thesis using v by (simp add: parseRecord_def Let_def)
qed

lemma map_of_update_same: "map_of (AList.update k v al) k = Some v"
  by (simp add: update_conv')

lemma Append_cases:
  "Append env w b data =
     (if put_fails env (getObjectKey w (length_w w + 1))
      then (Inl (PutObjectError (length_w w + 1) Transport), w,
            if put_lands env (getObjectKey w (length_w w + 1))
            then AList.update (getObjectKey w (length_w w + 1))
                   (be64 (length_w w + 1) @ data @ sha256 (be64 (length_w w + 1) @ data)) b
            else b)
      else (Inr (length_w w + 1), w\<lparr>length_w := length_w w + 1\<rparr>,
            AList.update (getObjectKey w (length_w w + 1))
              (be64 (length_w w + 1) @ data @ sha256 (be64 (length_w w + 1) @ data)) b))"
  by (simp add: Append_def Let_def prepareBody_eq PutObject_def)

lemma getObjectKey_length_w [simp]: "getObjectKey (w\<lparr>length_w := n\<rparr>) x = getObjectKey w x"
  by (simp add: getObjectKey_def)

lemma parseRecord_not_GetObjectError: "parseRecord key offset data \<noteq> Inl (GetObjectError k e)"
  by (simp add: parseRecord_def Let_def)

lemma length_NewS3WAL [simp]: "length_w (NewS3WAL bucket pfx) = 0"
  by (simp add: NewS3WAL_def)

lemma key_wal_0: "getObjectKey (NewS3WAL ''bucket'' ''wal'') 0 = ''wal/00000000000000000000''"
  by code_simp

lemma key_wal_1: "getObjectKey (NewS3WAL ''bucket'' ''wal'') 1 = ''wal/00000000000000000001''"
  by code_simp

text \<open>
  C4: the body of a record is the offset as eight big-endian bytes, the data, and the 32
  bytes of SHA-256 over offset and data, at least 40 bytes in all; parsing it under the
  offset that its key decodes to gives offset and data back, the data being the body
  without those 40 bytes. This holds for every offset and every data, the empty one too.
\<close>

theorem framing_roundtrip:
  "prepareBody offset data = Inr (be64 offset @ data @ sha256 (be64 offset @ data)) \<and>
   length (be64 offset) = 8 \<and> from_be64 (be64 offset) = offset \<and>
   length (sha256 (be64 offset @ data)) = 32 \<and>
   40 \<le> length (be64 offset @ data @ sha256 (be64 offset @ data)) \<and>
   getOffsetFromKey (getObjectKey w offset) = Inr offset \<and>
   parseRecord (getObjectKey w offset) offset (be64 offset @ data @ sha256 (be64 offset @ data)) =
     Inr \<lparr>Offset = offset, Data = data\<rparr> \<and>
   length data = length (be64 offset @ data @ sha256 (be64 offset @ data)) - 40"
  by (simp add: prepareBody_eq parseRecord_framed getOffsetFromKey_getObjectKey)

section \<open>Append and Read\<close>

text \<open>
  C1: when \<open>Append\<close> of some data returns offset \<open>off\<close>, then \<open>off\<close> is the cached
  length before the call plus one (in \<open>uint64\<close>), the cached length after it is \<open>off\<close>, and
  \<open>Read\<close> of \<open>off\<close> on the bucket as \<open>Append\<close> left it returns the record of offset
  \<open>off\<close> with that data, whenever the store answers the download.
\<close>

theorem append_then_read:
  assumes "Append env w b data = (Inr off, w', b')"
  shows "off = length_w w + 1 \<and> length_w w' = off \<and>
         (\<forall>env'. \<not> get_fails env' (getObjectKey w' off) \<and> \<not> body_fails env' (getObjectKey w' off)
            \<longrightarrow> Read env' w' b' off = Inr \<lparr>Offset = off, Data = data\<rparr>)"
proof -
  from assms have nf: "\<not> put_fails env (getObjectKey w (length_w w + 1))"
    by (auto simp: Append_cases split: if_splits)
  from assms nf have off: "off = length_w w + 1" and w': "w' = w\<lparr>length_w := length_w w + 1\<rparr>"
    and b': "b' = AList.update (getObjectKey w off) (be64 off @ data @ sha256 (be64 off @ data)) b"
    by (auto simp: Append_cases)
  have "Read env' w' b' off = Inr \<lparr>Offset = off, Data = data\<rparr>"
    if "\<not> get_fails env' (getObjectKey w' off)" "\<not> body_fails env' (getObjectKey w' off)" for env'
    using that unfolding w' b'
    by (simp add: Read_def Let_def GetObject_def map_of_update_same parseRecord_framed)
  then show ?thesis using off w' by simp
qed

theorem append_then_read_witness:
  "Append no_faults (NewS3WAL ''bucket'' ''wal'') [] [7, 8] =
     (Inr 1, (NewS3WAL ''bucket'' ''wal'')\<lparr>length_w := 1\<rparr>,
      [(''wal/00000000000000000001'', be64 1 @ [7, 8] @ sha256 (be64 1 @ [7, 8]))]) \<and>
   Read no_faults ((NewS3WAL ''bucket'' ''wal'')\<lparr>length_w := 1\<rparr>)
      [(''wal/00000000000000000001'', be64 1 @ [7, 8] @ sha256 (be64 1 @ [7, 8]))] 1 =
     Inr \<lparr>Offset = 1, Data = [7, 8]\<rparr>"
proof -
  have a: "Append no_faults (NewS3WAL ''bucket'' ''wal'') [] [7, 8] =
     (Inr 1, (NewS3WAL ''bucket'' ''wal'')\<lparr>length_w := 1\<rparr>,
      [(''wal/00000000000000000001'', be64 1 @ [7, 8] @ sha256 (be64 1 @ [7, 8]))])"
    by (simp add: Append_cases key_wal_1 no_faults_def)
  from append_then_read[OF a] a show ?thesis by (simp add: no_faults_def)
qed

text \<open>
  C6: when the write to the store fails, \<open>Append\<close> returns an error that names the offset
  it tried, the engine state is the one before the call (so the cached length has not
  moved and no record counts as appended), and the next \<open>Append\<close> whose write goes through
  is given that same offset, the cached length plus one.
\<close>

theorem append_put_failure:
  assumes "put_fails env (getObjectKey w (length_w w + 1))"
  shows "\<exists>err b'. Append env w b data = (Inl (PutObjectError (length_w w + 1) err), w, b') \<and>
         (\<forall>env' b'' data'. \<not> put_fails env' (getObjectKey w (length_w w + 1)) \<longrightarrow>
            fst (Append env' w b'' data') = Inr (length_w w + 1))"
  using assms by (simp add: Append_cases)

theorem append_put_failure_witness:
  "put_fails (no_faults\<lparr>put_fails := (\<lambda>k. True)\<rparr>)
      (getObjectKey (NewS3WAL ''bucket'' ''wal'') (length_w (NewS3WAL ''bucket'' ''wal'') + 1)) \<and>
   fst (Append (no_faults\<lparr>put_fails := (\<lambda>k. True)\<rparr>) (NewS3WAL ''bucket'' ''wal'') [] [7]) =
     Inl (PutObjectError 1 Transport) \<and>
   fst (snd (Append (no_faults\<lparr>put_fails := (\<lambda>k. True)\<rparr>) (NewS3WAL ''bucket'' ''wal'') [] [7])) =
     NewS3WAL ''bucket'' ''wal'' \<and>
   fst (Append no_faults (NewS3WAL ''bucket'' ''wal'') [] [9]) = Inr 1"
proof -
  have f: "put_fails (no_faults\<lparr>put_fails := (\<lambda>k. True)\<rparr>)
      (getObjectKey (NewS3WAL ''bucket'' ''wal'') (length_w (NewS3WAL ''bucket'' ''wal'') + 1))"
    by simp
  have n: "\<not> put_fails no_faults
      (getObjectKey (NewS3WAL ''bucket'' ''wal'') (length_w (NewS3WAL ''bucket'' ''wal'') + 1))"
    by (simp add: no_faults_def)
  from append_put_failure[OF f, of "[]" "[7]"] obtain err b' where
    a: "Append (no_faults\<lparr>put_fails := (\<lambda>k. True)\<rparr>) (NewS3WAL ''bucket'' ''wal'') [] [7] =
          (Inl (PutObjectError (length_w (NewS3WAL ''bucket'' ''wal'') + 1) err), NewS3WAL ''bucket'' ''wal'', b')"
    and r: "\<forall>env' b'' data'.
          \<not> put_fails env' (getObjectKey (NewS3WAL ''bucket'' ''wal'') (length_w (NewS3WAL ''bucket'' ''wal'') + 1)) \<longrightarrow>
          fst (Append env' (NewS3WAL ''bucket'' ''wal'') b'' data') = Inr (length_w (NewS3WAL ''bucket'' ''wal'') + 1)"
    by blast
  have e: "err = Transport" by (cases err) (use a in \<open>simp_all add: Append_cases\<close>)
  from r n have "fst (Append no_faults (NewS3WAL ''bucket'' ''wal'') [] [9]) = Inr 1" by simp
  with f a e show ?thesis by simp
qed

text \<open>
  C9, as the code has it: \<open>Read\<close> has no case for offset 0. It downloads the object under
  the key of offset 0 like any other, so it fails as not found exactly when the bucket
  has no object under that key (the store answering the request).
\<close>

theorem read_zero_not_found_iff:
  assumes "\<not> get_fails env (getObjectKey w 0)"
  shows "Read env w b 0 = Inl (GetObjectError (getObjectKey w 0) NoSuchKey)
          \<longleftrightarrow> map_of b (getObjectKey w 0) = None"
  using assms
  by (auto simp: Read_def Let_def GetObject_def parseRecord_not_GetObjectError split: option.splits)

theorem read_zero_not_found_iff_witness:
  "\<not> get_fails no_faults (getObjectKey (NewS3WAL ''bucket'' ''wal'') 0) \<and>
   map_of ([] :: bucket) (getObjectKey (NewS3WAL ''bucket'' ''wal'') 0) = None \<and>
   Read no_faults (NewS3WAL ''bucket'' ''wal'') [] 0 =
     Inl (GetObjectError ''wal/00000000000000000000'' NoSuchKey)"
proof -
  have g: "\<not> get_fails no_faults (getObjectKey (NewS3WAL ''bucket'' ''wal'') 0)"
    by (simp add: no_faults_def)
  from read_zero_not_found_iff[OF g, of "[]"] g show ?thesis by (simp add: key_wal_0)
qed

text \<open>
  C9 as stated fails: a bucket that holds, under the key of offset 0, a body framed for
  offset 0 makes \<open>Read\<close> of offset 0 return that record.
\<close>

theorem read_zero_counterexample:
  "Read no_faults (NewS3WAL ''bucket'' ''wal'')
     [(''wal/00000000000000000000'', be64 0 @ sha256 (be64 0))] 0 =
   Inr \<lparr>Offset = 0, Data = []\<rparr>"
  using parseRecord_framed[of "''wal/00000000000000000000''" 0 "[]"]
  by (simp add: Read_def Let_def GetObject_def key_wal_0 no_faults_def)

section \<open>Recover\<close>

lemma concat_paginate [simp]: "concat (paginate n xs) = xs"
proof (induction n xs rule: paginate.induct)
  case (1 n xs)
  show ?case
  proof (cases "n = 0 \<or> length xs \<le> n")
    case True then show ?thesis by (subst paginate.simps) simp
  next
    case False
    with 1 have "concat (paginate n (drop n xs)) = drop n xs" by simp
    with False show ?thesis by (subst paginate.simps) simp
  qed
qed

lemma paginate_nonempty [simp]: "paginate n xs \<noteq> []"
  by (subst paginate.simps) simp

lemma set_list_keys [simp]: "set (list_keys b p) = {k \<in> fst ` set b. has_prefix p k}"
  by (auto simp: list_keys_def)

lemma sorted_list_keys: "sorted (list_keys b p)"
  by (simp add: list_keys_def)

lemma distinct_list_keys: "distinct (list_keys b p)"
  by (simp add: list_keys_def)

lemma ex_less_Suc_shift:
  "(\<exists>j<Suc n. P (i + j)) \<longleftrightarrow> P i \<or> (\<exists>j<n. P (Suc i + j))"
proof
  assume "\<exists>j<Suc n. P (i + j)"
  then obtain j where j: "j < Suc n" "P (i + j)" by blast
  show "P i \<or> (\<exists>j<n. P (Suc i + j))"
  proof (cases j)
    case 0 with j show ?thesis by simp
  next
    case (Suc j') with j show ?thesis by auto
  qed
next
  assume "P i \<or> (\<exists>j<n. P (Suc i + j))"
  then show "\<exists>j<Suc n. P (i + j)"
  proof
    assume "P i" then have "P (i + 0)" by simp
    then show ?thesis by blast
  next
    assume "\<exists>j<n. P (Suc i + j)"
    then obtain j where "j < n" "P (Suc i + j)" by blast
    then have "Suc j < Suc n" "P (i + Suc j)" by simp_all
    then show ?thesis by blast
  qed
qed

lemma recover_objs_append:
  "recover_objs (xs @ ys) m = recover_objs ys (recover_objs xs m)"
  by (induction xs arbitrary: m) (auto split: sum.splits)

lemma recover_pages_eq:
  "recover_pages env i pages m =
     (if \<exists>j<length pages. list_fails env (i + j) then Inl (ListRecoverError Transport)
      else Inr (recover_objs (concat pages) m))"
proof (induction pages arbitrary: i m)
  case Nil then show ?case by simp
next
  case (Cons page rest)
  have e: "(\<exists>j<length (page # rest). list_fails env (i + j)) \<longleftrightarrow>
           list_fails env i \<or> (\<exists>j<length rest. list_fails env (Suc i + j))"
    using ex_less_Suc_shift[of "length rest" "list_fails env" i] by simp
  show ?case
    unfolding e recover_pages.simps Cons.IH by (simp add: recover_objs_append)
qed

lemma recover_objs_ge: "m \<le> recover_objs ks m"
proof (induction ks arbitrary: m)
  case Nil then show ?case by simp
next
  case (Cons k ks)
  show ?case
  proof (cases "getOffsetFromKey k")
    case (Inl e) with Cons show ?thesis by simp
  next
    case (Inr x)
    have "m \<le> (if m < x then x else m)" by (simp add: less_imp_le)
    also have "\<dots> \<le> recover_objs ks (if m < x then x else m)" by (rule Cons.IH)
    finally show ?thesis using Inr by simp
  qed
qed

lemma recover_objs_upper:
  "k \<in> set ks \<Longrightarrow> getOffsetFromKey k = Inr x \<Longrightarrow> x \<le> recover_objs ks m"
proof (induction ks arbitrary: m)
  case Nil then show ?case by simp
next
  case (Cons a ks)
  show ?case
  proof (cases "k = a")
    case True
    have "x \<le> (if m < x then x else m)" by (simp add: not_less)
    also have "\<dots> \<le> recover_objs ks (if m < x then x else m)" by (rule recover_objs_ge)
    finally show ?thesis using True Cons.prems by simp
  next
    case False
    with Cons.prems have "k \<in> set ks" by simp
    from Cons.IH[OF this Cons.prems(2)] show ?thesis by (simp split: sum.splits)
  qed
qed

lemma recover_objs_attained:
  "recover_objs ks m = m \<or> (\<exists>k\<in>set ks. getOffsetFromKey k = Inr (recover_objs ks m))"
proof (induction ks arbitrary: m)
  case Nil then show ?case by simp
next
  case (Cons a ks)
  show ?case
  proof (cases "getOffsetFromKey a")
    case (Inl e) with Cons.IH[of m] show ?thesis by auto
  next
    case (Inr x)
    with Cons.IH[of "if m < x then x else m"] show ?thesis by (auto split: if_splits)
  qed
qed


lemma Recover_eq:
  "Recover env w b =
     (if list_fault env (length (ListObjectsV2 env b (prefix w @ ''/'')))
      then (Inl (ListRecoverError Transport), w)
      else (Inr (recover_objs (list_keys b (prefix w @ ''/'')) 0),
            w\<lparr>length_w := recover_objs (list_keys b (prefix w @ ''/'')) 0\<rparr>))"
  using recover_pages_eq[of env 0 "ListObjectsV2 env b (prefix w @ ''/'')" 0]
  by (simp add: Recover_def list_fault_def ListObjectsV2_def)

lemma Recover_bounds:
  "(list_fault env (length (ListObjectsV2 env b (prefix w @ ''/''))) \<longrightarrow>
      Recover env w b = (Inl (ListRecoverError Transport), w)) \<and>
   (\<not> list_fault env (length (ListObjectsV2 env b (prefix w @ ''/''))) \<longrightarrow>
      (\<exists>m. Recover env w b = (Inr m, w\<lparr>length_w := m\<rparr>) \<and>
           (\<forall>k off. k \<in> fst ` set b \<and> has_prefix (prefix w @ ''/'') k \<and>
                     getOffsetFromKey k = Inr off \<longrightarrow> off \<le> m) \<and>
           (m = 0 \<or> (\<exists>k. k \<in> fst ` set b \<and> has_prefix (prefix w @ ''/'') k \<and>
                          getOffsetFromKey k = Inr m))))"
proof -
  let ?ks = "list_keys b (prefix w @ ''/'')"
  let ?m = "recover_objs ?ks 0"
  have u: "\<forall>k off. k \<in> fst ` set b \<and> has_prefix (prefix w @ ''/'') k \<and>
                     getOffsetFromKey k = Inr off \<longrightarrow> off \<le> ?m"
    using recover_objs_upper[of _ ?ks _ 0] by auto
  have a: "?m = 0 \<or> (\<exists>k. k \<in> fst ` set b \<and> has_prefix (prefix w @ ''/'') k \<and>
                          getOffsetFromKey k = Inr ?m)"
    using recover_objs_attained[of ?ks 0] by auto
  show ?thesis using u a by (simp add: Recover_eq)
qed


text \<open>
  C3: \<open>Recover\<close> fails exactly when a page request of the listing fails, and then with
  the listing error and the engine state untouched. Otherwise, whatever the bucket holds,
  it returns a value \<open>m\<close> and caches it, where \<open>m\<close> is at least every offset that a key
  under the prefix decodes to, and is 0 or one of these offsets: the greatest decoded
  offset, 0 when no key decodes. Keys that do not decode are passed over.
\<close>

theorem recover_result:
  "(list_fault env (length (ListObjectsV2 env b (prefix w @ ''/''))) \<longrightarrow>
      Recover env w b = (Inl (ListRecoverError Transport), w)) \<and>
   (\<not> list_fault env (length (ListObjectsV2 env b (prefix w @ ''/''))) \<longrightarrow>
      (\<exists>m. Recover env w b = (Inr m, w\<lparr>length_w := m\<rparr>) \<and>
           (\<forall>k off. k \<in> fst ` set b \<and> has_prefix (prefix w @ ''/'') k \<and>
                     getOffsetFromKey k = Inr off \<longrightarrow> off \<le> m) \<and>
           (m = 0 \<or> (\<exists>k. k \<in> fst ` set b \<and> has_prefix (prefix w @ ''/'') k \<and>
                          getOffsetFromKey k = Inr m))))"
  by (rule Recover_bounds)

lemmas key_eval =
  getOffsetFromKey_def ParseUint_def is_digit_def digit_val_def cutoff_def Let_def

lemma prefix_NewS3WAL_wal [simp]: "prefix (NewS3WAL bucket ''wal'') = ''wal''"
  by (simp add: NewS3WAL_def trim_slashes_def)

lemma list_keys_demo:
  "list_keys demo_bucket ''wal/'' =
     [''wal/00000000000000000001'', ''wal/00000000000000000002'', ''wal/zzz'']"
  by (simp add: demo_bucket_def list_keys_def has_prefix_def)

lemma pages_demo:
  "ListObjectsV2 no_faults demo_bucket ''wal/'' =
     [[''wal/00000000000000000001'', ''wal/00000000000000000002'', ''wal/zzz'']]"
  by (simp add: ListObjectsV2_def list_keys_demo paginate.simps no_faults_def)

lemma length_paginate_pos [simp]: "0 < length (paginate n xs)"
  by (subst paginate.simps) simp

lemma not_list_fault_no_faults [simp]: "\<not> list_fault no_faults n"
  by (simp add: list_fault_def no_faults_def)

theorem recover_result_witness:
  "\<not> list_fault no_faults (length (ListObjectsV2 no_faults demo_bucket ''wal/'')) \<and>
   Recover no_faults (NewS3WAL ''bucket'' ''wal'') demo_bucket =
     (Inr 2, (NewS3WAL ''bucket'' ''wal'')\<lparr>length_w := 2\<rparr>) \<and>
   list_fault (no_faults\<lparr>list_fails := (\<lambda>i. True)\<rparr>)
     (length (ListObjectsV2 (no_faults\<lparr>list_fails := (\<lambda>i. True)\<rparr>) demo_bucket ''wal/'')) \<and>
   Recover (no_faults\<lparr>list_fails := (\<lambda>i. True)\<rparr>) (NewS3WAL ''bucket'' ''wal'') demo_bucket =
     (Inl (ListRecoverError Transport), NewS3WAL ''bucket'' ''wal'')"
proof -
  let ?w = "NewS3WAL ''bucket'' ''wal''"
  let ?bad = "no_faults\<lparr>list_fails := (\<lambda>i. True)\<rparr>"
  have f: "list_fault ?bad (length (ListObjectsV2 ?bad demo_bucket (prefix ?w @ ''/'')))"
    unfolding list_fault_def ListObjectsV2_def by (intro exI[of _ 0]) simp
  have e: "fst (Recover no_faults ?w demo_bucket) = Inr 2"
    by (simp add: Recover_eq list_keys_demo key_eval)
  from recover_result[of no_faults demo_bucket ?w] obtain m where
    "Recover no_faults ?w demo_bucket = (Inr m, ?w\<lparr>length_w := m\<rparr>)" by auto
  with e have g: "Recover no_faults ?w demo_bucket = (Inr 2, ?w\<lparr>length_w := 2\<rparr>)" by simp
  from recover_result[of ?bad demo_bucket ?w] f
  have b: "Recover ?bad ?w demo_bucket = (Inl (ListRecoverError Transport), ?w)" by blast
  from f g b show ?thesis by simp
qed

section \<open>LastRecord\<close>

lemma last_key_pages_eq:
  "last_key_pages env i pages lk =
     (if \<exists>j<length pages. list_fails env (i + j) then Inl (ListObjectsError Transport)
      else Inr (if concat pages = [] then lk else last (concat pages)))"
proof (induction pages arbitrary: i lk)
  case Nil then show ?case by simp
next
  case (Cons page rest)
  have e: "(\<exists>j<length (page # rest). list_fails env (i + j)) \<longleftrightarrow>
           list_fails env i \<or> (\<exists>j<length rest. list_fails env (Suc i + j))"
    using ex_less_Suc_shift[of "length rest" "list_fails env" i] by simp
  show ?case
    unfolding e last_key_pages.simps Cons.IH by (cases "page = []") simp_all
qed

lemma has_prefix_nonempty: "has_prefix (p @ ''/'') k \<Longrightarrow> k \<noteq> []"
  by (auto simp: has_prefix_def)

lemma last_list_keys_nonempty:
  assumes "list_keys b (p @ ''/'') \<noteq> []"
  shows "last (list_keys b (p @ ''/'')) \<noteq> []"
proof -
  from assms have "last (list_keys b (p @ ''/'')) \<in> set (list_keys b (p @ ''/''))"
    by (rule last_in_set)
  then have "has_prefix (p @ ''/'') (last (list_keys b (p @ ''/'')))" by simp
  then show ?thesis by (rule has_prefix_nonempty)
qed

lemma Read_length_w [simp]: "Read env (w\<lparr>length_w := n\<rparr>) b x = Read env w b x"
  by (simp add: Read_def)

lemma LastRecord_eq:
  "LastRecord env w b =
     (if list_fault env (length (ListObjectsV2 env b (prefix w @ ''/'')))
      then (Inl (ListObjectsError Transport), w)
      else if list_keys b (prefix w @ ''/'') = [] then (Inl WALEmpty, w\<lparr>length_w := 0\<rparr>)
      else case getOffsetFromKey (last (list_keys b (prefix w @ ''/''))) of
             Inl err \<Rightarrow> (Inl (ParseLastKeyError (last (list_keys b (prefix w @ ''/''))) err), w)
           | Inr off \<Rightarrow> (Read env w b off, w\<lparr>length_w := off\<rparr>))"
proof -
  let ?pages = "ListObjectsV2 env b (prefix w @ ''/'')"
  let ?keys = "list_keys b (prefix w @ ''/'')"
  have c: "concat ?pages = ?keys" by (simp add: ListObjectsV2_def)
  have p: "last_key_pages env 0 ?pages [] =
     (if list_fault env (length ?pages) then Inl (ListObjectsError Transport)
      else Inr (if ?keys = [] then [] else last ?keys))"
    using last_key_pages_eq[of env 0 ?pages "[]"] unfolding c by (simp add: list_fault_def)
  show ?thesis
  proof (cases "list_fault env (length ?pages)")
    case True
    then show ?thesis unfolding LastRecord_def p by simp
  next
    case nf: False
    show ?thesis
    proof (cases "?keys = []")
      case True
      with nf show ?thesis unfolding LastRecord_def p by simp
    next
      case False
      then have "last ?keys \<noteq> []" by (rule last_list_keys_nonempty)
      with nf False show ?thesis
        unfolding LastRecord_def p by (simp add: Let_def split: sum.splits)
    qed
  qed
qed

text \<open>
  C10: \<open>LastRecord\<close> changes the cached length also when it returns an error. With the
  listing fetched, a prefix without keys makes it cache 0 and return the empty-log error;
  and when the last listed key decodes to an offset, it caches that offset and returns
  whatever \<open>Read\<close> of that offset returns, so an error of that \<open>Read\<close> comes with the
  cache already set to the offset.
\<close>

theorem last_record_updates_cache:
  assumes "\<not> list_fault env (length (ListObjectsV2 env b (prefix w @ ''/'')))"
  shows "(list_keys b (prefix w @ ''/'') = [] \<longrightarrow>
            LastRecord env w b = (Inl WALEmpty, w\<lparr>length_w := 0\<rparr>)) \<and>
         (\<forall>off. list_keys b (prefix w @ ''/'') \<noteq> [] \<and>
                getOffsetFromKey (last (list_keys b (prefix w @ ''/''))) = Inr off \<longrightarrow>
            LastRecord env w b = (Read env w b off, w\<lparr>length_w := off\<rparr>) \<and>
            (\<forall>err. Read env w b off = Inl err \<longrightarrow>
               LastRecord env w b = (Inl err, w\<lparr>length_w := off\<rparr>)))"
  using assms by (simp add: LastRecord_eq)

lemma list_keys_Nil [simp]: "list_keys [] p = []"
  by (simp add: list_keys_def)

theorem last_record_updates_cache_witness:
  "\<not> list_fault no_faults
       (length (ListObjectsV2 no_faults [] (prefix ((NewS3WAL ''bucket'' ''wal'')\<lparr>length_w := 5\<rparr>) @ ''/''))) \<and>
   LastRecord no_faults ((NewS3WAL ''bucket'' ''wal'')\<lparr>length_w := 5\<rparr>) [] =
     (Inl WALEmpty, (NewS3WAL ''bucket'' ''wal'')\<lparr>length_w := 0\<rparr>) \<and>
   \<not> list_fault no_faults
       (length (ListObjectsV2 no_faults [(''wal/00000000000000000003'', [1, 2, 3])]
          (prefix (NewS3WAL ''bucket'' ''wal'') @ ''/''))) \<and>
   LastRecord no_faults (NewS3WAL ''bucket'' ''wal'') [(''wal/00000000000000000003'', [1, 2, 3])] =
     (Inl (RecordTooShort ''wal/00000000000000000003''), (NewS3WAL ''bucket'' ''wal'')\<lparr>length_w := 3\<rparr>)"
proof -
  let ?w = "NewS3WAL ''bucket'' ''wal''"
  let ?b = "[(''wal/00000000000000000003'', [1, 2, 3])] :: bucket"
  have k: "list_keys ?b (prefix ?w @ ''/'') = [''wal/00000000000000000003'']"
    by (simp add: list_keys_def has_prefix_def)
  have d: "getOffsetFromKey (last (list_keys ?b (prefix ?w @ ''/''))) = Inr 3"
    unfolding k by (simp add: key_eval)
  have k3: "getObjectKey ?w 3 = ''wal/00000000000000000003''"
    by code_simp
  have r: "Read no_faults ?w ?b 3 = Inl (RecordTooShort ''wal/00000000000000000003'')"
    by (simp add: Read_def GetObject_def k3 no_faults_def parseRecord_def)
  have n1: "\<not> list_fault no_faults
       (length (ListObjectsV2 no_faults [] (prefix (?w\<lparr>length_w := 5\<rparr>) @ ''/'')))" by simp
  have n2: "\<not> list_fault no_faults (length (ListObjectsV2 no_faults ?b (prefix ?w @ ''/'')))"
    by simp
  from last_record_updates_cache[OF n1]
  have a: "LastRecord no_faults (?w\<lparr>length_w := 5\<rparr>) [] = (Inl WALEmpty, ?w\<lparr>length_w := 0\<rparr>)"
    by simp
  from last_record_updates_cache[OF n2] k d r
  have c: "LastRecord no_faults ?w ?b =
     (Inl (RecordTooShort ''wal/00000000000000000003''), ?w\<lparr>length_w := 3\<rparr>)"
    by simp
  from n1 a n2 c show ?thesis by simp
qed

text \<open>
  C7 is not what the code does when the last key under the prefix is no offset. On the
  bucket \<open>demo_bucket\<close>, whose keys under \<open>wal/\<close> are those of offsets 1 and 2 and
  \<open>wal/zzz\<close>, \<open>LastRecord\<close> stops at \<open>wal/zzz\<close> with a parse error and leaves the
  cache alone, while \<open>Recover\<close> passes that key over and returns 2, and the record of
  offset 2 is there to be read.
\<close>

theorem last_record_malformed_last_key:
  "LastRecord no_faults (NewS3WAL ''bucket'' ''wal'') demo_bucket =
     (Inl (ParseLastKeyError ''wal/zzz'' (ParseUintError ''zzz'' ErrSyntax)),
      NewS3WAL ''bucket'' ''wal'') \<and>
   fst (Recover no_faults (NewS3WAL ''bucket'' ''wal'') demo_bucket) = Inr 2 \<and>
   Read no_faults (NewS3WAL ''bucket'' ''wal'') demo_bucket 2 = Inr \<lparr>Offset = 2, Data = [6]\<rparr>"
proof -
  let ?w = "NewS3WAL ''bucket'' ''wal''"
  have l: "LastRecord no_faults ?w demo_bucket =
     (Inl (ParseLastKeyError ''wal/zzz'' (ParseUintError ''zzz'' ErrSyntax)), ?w)"
    by (simp add: LastRecord_eq list_keys_demo key_eval)
  have r: "fst (Recover no_faults ?w demo_bucket) = Inr 2"
    by (simp add: Recover_eq list_keys_demo key_eval)
  have k2: "getObjectKey ?w 2 = ''wal/00000000000000000002''"
    by code_simp
  have "Read no_faults ?w demo_bucket 2 = Inr \<lparr>Offset = 2, Data = [6]\<rparr>"
    using parseRecord_framed[of "''wal/00000000000000000002''" 2 "[6]"]
    by (simp add: Read_def GetObject_def k2 no_faults_def demo_bucket_def)
  with l r show ?thesis by simp
qed

section \<open>Truncate\<close>

lemma remove_keys_Nil [simp]: "remove_keys [] b = b"
  by (simp add: remove_keys_def)

lemma remove_keys_append: "remove_keys (xs @ ys) b = remove_keys ys (remove_keys xs b)"
  by (auto simp: remove_keys_def intro: filter_cong)

lemma batchDelete_ok:
  "batchDelete env b keys = (Inr u, b') \<Longrightarrow> b' = remove_keys keys b"
  by (auto simp: batchDelete_def DeleteObjects_def remove_keys_def Let_def
      split: if_splits)

lemma truncate_objs_ok:
  "truncate_objs env k objs ktd b = (Inr ktd', b') \<Longrightarrow>
     \<exists>dl. b' = remove_keys dl b \<and> dl @ ktd' = ktd @ filter (beyond k) objs"
proof (induction objs arbitrary: ktd b)
  case Nil
  then have "b' = remove_keys [] b \<and> [] @ ktd' = ktd @ filter (beyond k) []" by simp
  then show ?case by blast
next
  case (Cons key objs)
  show ?case
  proof (cases "getOffsetFromKey key")
    case (Inl e)
    with Cons.prems have "truncate_objs env k objs ktd b = (Inr ktd', b')" by simp
    from Cons.IH[OF this] Inl show ?thesis by (simp add: beyond_def)
  next
    case (Inr off)
    let ?ktd = "if off > k then ktd @ [key] else ktd"
    have f: "ktd @ filter (beyond k) (key # objs) = ?ktd @ filter (beyond k) objs"
      using Inr by (simp add: beyond_def)
    show ?thesis
    proof (cases "length ?ktd = 1000")
      case True
      obtain r b1 where bd: "batchDelete env b ?ktd = (r, b1)" by (cases "batchDelete env b ?ktd")
      from Cons.prems Inr True bd obtain u where r: "r = Inr u"
        by (cases r) (simp_all add: Let_def)
      from bd r have b1: "b1 = remove_keys ?ktd b" by (simp add: batchDelete_ok)
      from Cons.prems Inr True bd r
      have "truncate_objs env k objs [] b1 = (Inr ktd', b')" by (simp add: Let_def)
      from Cons.IH[OF this] obtain dl where
        dl: "b' = remove_keys dl b1" "dl @ ktd' = filter (beyond k) objs" by auto
      have "b' = remove_keys (?ktd @ dl) b" using dl(1) b1 by (simp add: remove_keys_append)
      moreover have "(?ktd @ dl) @ ktd' = ktd @ filter (beyond k) (key # objs)"
        unfolding f using dl(2) by simp
      ultimately show ?thesis by blast
    next
      case False
      with Cons.prems Inr have "truncate_objs env k objs ?ktd b = (Inr ktd', b')"
        by (simp add: Let_def)
      from Cons.IH[OF this] show ?thesis unfolding f .
    qed
  qed
qed

lemma truncate_pages_ok:
  "truncate_pages env k i pages ktd b = (Inr ktd', b') \<Longrightarrow>
     \<not> (\<exists>j<length pages. list_fails env (i + j)) \<and>
     (\<exists>dl. b' = remove_keys dl b \<and> dl @ ktd' = ktd @ filter (beyond k) (concat pages))"
proof (induction pages arbitrary: i ktd b)
  case Nil
  then have "b' = remove_keys [] b \<and> [] @ ktd' = ktd @ filter (beyond k) (concat [])" by simp
  then show ?case by auto
next
  case (Cons page rest)
  from Cons.prems have nf: "\<not> list_fails env i" by (auto split: if_splits)
  obtain r b1 where to: "truncate_objs env k page ktd b = (r, b1)"
    by (cases "truncate_objs env k page ktd b")
  from Cons.prems nf to obtain ktd1 where r: "r = Inr ktd1" by (cases r) simp_all
  from truncate_objs_ok[OF to[unfolded r]] obtain dl1 where
    dl1: "b1 = remove_keys dl1 b" "dl1 @ ktd1 = ktd @ filter (beyond k) page" by auto
  from Cons.prems nf to r
  have "truncate_pages env k (Suc i) rest ktd1 b1 = (Inr ktd', b')" by simp
  from Cons.IH[OF this] obtain dl2 where
    nf2: "\<not> (\<exists>j<length rest. list_fails env (Suc i + j))" and
    dl2: "b' = remove_keys dl2 b1" "dl2 @ ktd' = ktd1 @ filter (beyond k) (concat rest)" by auto
  have e: "(\<exists>j<length (page # rest). list_fails env (i + j)) \<longleftrightarrow>
           list_fails env i \<or> (\<exists>j<length rest. list_fails env (Suc i + j))"
    using ex_less_Suc_shift[of "length rest" "list_fails env" i] by simp
  have "b' = remove_keys (dl1 @ dl2) b" using dl1(1) dl2(1) by (simp add: remove_keys_append)
  moreover have "(dl1 @ dl2) @ ktd' = ktd @ filter (beyond k) (concat (page # rest))"
    using dl1(2) dl2(2) by (metis append.assoc concat.simps(2) filter_append)
  ultimately show ?case using nf nf2 unfolding e by blast
qed

lemma Truncate_ok:
  assumes "Truncate env w b k = (Inr u, w', b')"
  shows "w' = w\<lparr>length_w := k\<rparr> \<and>
         b' = remove_keys (filter (beyond k) (list_keys b (prefix w @ ''/''))) b \<and>
         \<not> list_fault env (length (ListObjectsV2 env b (prefix w @ ''/'')))"
proof -
  let ?pages = "ListObjectsV2 env b (prefix w @ ''/'')"
  obtain r b1 where tp: "truncate_pages env k 0 ?pages [] b = (r, b1)"
    by (cases "truncate_pages env k 0 ?pages [] b")
  from assms tp obtain ktd where r: "r = Inr ktd" by (cases r) (simp_all add: Truncate_def)
  from truncate_pages_ok[OF tp[unfolded r]] obtain dl where
    nf: "\<not> list_fault env (length ?pages)" and
    dl: "b1 = remove_keys dl b" "dl @ ktd = filter (beyond k) (list_keys b (prefix w @ ''/''))"
    by (auto simp: list_fault_def ListObjectsV2_def)
  obtain r2 b2 where bd: "(if length ktd > 0 then batchDelete env b1 ktd else (Inr (), b1)) = (r2, b2)"
    by (cases "if length ktd > 0 then batchDelete env b1 ktd else (Inr (), b1)")
  from assms tp r bd obtain u2 where r2: "r2 = Inr u2" by (cases r2) (simp_all add: Truncate_def)
  from bd r2 have b2: "b2 = remove_keys ktd b1"
    by (cases "length ktd > 0") (simp_all add: batchDelete_ok)
  from assms tp r bd r2 have w': "w' = w\<lparr>length_w := k\<rparr>" and b': "b' = b2"
    by (auto simp: Truncate_def)
  have "b' = remove_keys (dl @ ktd) b" using b' b2 dl(1) by (simp add: remove_keys_append)
  with dl(2) w' nf show ?thesis by simp
qed

lemma map_of_filter_key:
  "map_of (filter (\<lambda>kv. Q (fst kv)) b) x = (if Q x then map_of b x else None)"
  by (induction b) auto

lemma has_prefix_getObjectKey [simp]: "has_prefix (prefix w @ ''/'') (getObjectKey w j)"
  by (simp add: has_prefix_def getObjectKey_def)

lemma beyond_getObjectKey [simp]: "beyond k (getObjectKey w j) \<longleftrightarrow> k < j"
  by (simp add: beyond_def getOffsetFromKey_getObjectKey)

lemma beyond_iff: "beyond k key \<longleftrightarrow> (\<exists>off. getOffsetFromKey key = Inr off \<and> k < off)"
  by (cases "getOffsetFromKey key") (simp_all add: beyond_def)

lemma remove_listed:
  "remove_keys (filter (beyond k) (list_keys b p)) b =
     filter (\<lambda>kv. \<not> (has_prefix p (fst kv) \<and> beyond k (fst kv))) b"
  unfolding remove_keys_def by (rule filter_cong) auto

lemma Read_cong_map_of:
  "map_of b' (getObjectKey w j) = map_of b (getObjectKey w j) \<Longrightarrow> Read env w b' j = Read env w b j"
  by (simp add: Read_def GetObject_def Let_def)

lemma Read_absent:
  "map_of b (getObjectKey w j) = None \<Longrightarrow> \<not> get_fails env (getObjectKey w j) \<Longrightarrow>
     Read env w b j = Inl (GetObjectError (getObjectKey w j) NoSuchKey)"
  by (simp add: Read_def GetObject_def Let_def)

lemma prefix_length_w [simp]: "prefix (w\<lparr>length_w := n\<rparr>) = prefix w"
  by simp

text \<open>
  C2, as the code has it: a \<open>Truncate\<close> after offset \<open>k\<close> that returns no error has
  removed exactly the objects under the prefix whose key decodes to an offset greater
  than \<open>k\<close> and has set the cached length to \<open>k\<close>. Afterwards \<open>Read\<close> of any offset
  above \<open>k\<close> is not found (the store answering), \<open>Read\<close> of any offset up to \<open>k\<close>
  returns what it returned before, and \<open>Recover\<close> returns the greatest offset that is
  still decodable under the prefix: at most \<open>k\<close>, and \<open>k\<close> itself when an object was
  stored under the key of \<open>k\<close> (or \<open>k\<close> is 0).
\<close>

theorem truncate_result:
  assumes "Truncate env w b k = (Inr u, w', b')"
  shows "b' = filter (\<lambda>kv. \<not> (has_prefix (prefix w @ ''/'') (fst kv) \<and>
                            (\<exists>off. getOffsetFromKey (fst kv) = Inr off \<and> k < off))) b \<and>
         w' = w\<lparr>length_w := k\<rparr> \<and>
         (\<forall>j env'. k < j \<and> \<not> get_fails env' (getObjectKey w' j) \<longrightarrow>
            Read env' w' b' j = Inl (GetObjectError (getObjectKey w' j) NoSuchKey)) \<and>
         (\<forall>j env'. j \<le> k \<longrightarrow> Read env' w' b' j = Read env' w b j) \<and>
         (\<forall>env'. \<not> list_fault env' (length (ListObjectsV2 env' b' (prefix w' @ ''/''))) \<longrightarrow>
            (\<exists>m. Recover env' w' b' = (Inr m, w'\<lparr>length_w := m\<rparr>) \<and> m \<le> k \<and>
                 (map_of b (getObjectKey w k) \<noteq> None \<longrightarrow> m = k)))"
proof -
  let ?p = "prefix w @ ''/''"
  let ?Q = "\<lambda>x. \<not> (has_prefix ?p x \<and> beyond k x)"
  from Truncate_ok[OF assms] have w': "w' = w\<lparr>length_w := k\<rparr>"
    and b': "b' = filter (\<lambda>kv. ?Q (fst kv)) b"
    by (simp_all add: remove_listed)
  have m: "map_of b' x = (if ?Q x then map_of b x else None)" for x
    unfolding b' by (rule map_of_filter_key)
  have gone: "Read env' w' b' j = Inl (GetObjectError (getObjectKey w' j) NoSuchKey)"
    if "k < j" "\<not> get_fails env' (getObjectKey w' j)" for j env'
  proof -
    have "map_of b' (getObjectKey w' j) = None" using that(1) by (simp add: m w')
    then show ?thesis using that(2) by (rule Read_absent)
  qed
  have kept: "Read env' w' b' j = Read env' w b j" if "j \<le> k" for j env'
  proof -
    have "map_of b' (getObjectKey w j) = map_of b (getObjectKey w j)"
      using that by (simp add: m not_less)
    then have "Read env' w b' j = Read env' w b j" by (rule Read_cong_map_of)
    then show ?thesis by (simp add: w')
  qed
  have rec: "\<exists>m. Recover env' w' b' = (Inr m, w'\<lparr>length_w := m\<rparr>) \<and> m \<le> k \<and>
                 (map_of b (getObjectKey w k) \<noteq> None \<longrightarrow> m = k)"
    if nf: "\<not> list_fault env' (length (ListObjectsV2 env' b' (prefix w' @ ''/'')))" for env'
  proof -
    from Recover_bounds[of env' b' w'] nf obtain mm where
      r: "Recover env' w' b' = (Inr mm, w'\<lparr>length_w := mm\<rparr>)" and
      ub: "\<forall>key off. key \<in> fst ` set b' \<and> has_prefix (prefix w' @ ''/'') key \<and>
                     getOffsetFromKey key = Inr off \<longrightarrow> off \<le> mm" and
      at: "mm = 0 \<or> (\<exists>key. key \<in> fst ` set b' \<and> has_prefix (prefix w' @ ''/'') key \<and>
                          getOffsetFromKey key = Inr mm)"
      by blast
    have le: "mm \<le> k"
    proof (cases "mm = 0")
      case True then show ?thesis by simp
    next
      case False
      with at obtain key where key: "key \<in> fst ` set b'" "has_prefix ?p key"
        "getOffsetFromKey key = Inr mm" by (auto simp: w')
      from key(1) have "?Q key" unfolding b' by auto
      with key(2,3) show ?thesis by (simp add: beyond_def not_less)
    qed
    have "mm = k" if "map_of b (getObjectKey w k) \<noteq> None"
    proof -
      have "map_of b' (getObjectKey w k) \<noteq> None" using that by (simp add: m)
      then have "getObjectKey w k \<in> fst ` set b'" by (metis map_of_eq_None_iff)
      moreover have "has_prefix (prefix w' @ ''/'') (getObjectKey w k)" by (simp add: w')
      moreover note getOffsetFromKey_getObjectKey[of w k]
      ultimately have "k \<le> mm" using ub by blast
      with le show ?thesis by simp
    qed
    with r le show ?thesis by blast
  qed
  show ?thesis using b' w' gone kept rec by (simp add: beyond_iff)
qed


lemma batchDelete_deletes_ok:
  "deletes_ok env \<Longrightarrow> batchDelete env b keys = (Inr (), remove_keys keys b)"
  by (simp add: batchDelete_def DeleteObjects_def deletes_ok_def remove_keys_def Let_def)

lemma truncate_objs_deletes_ok:
  "deletes_ok env \<Longrightarrow> \<exists>ktd' b'. truncate_objs env k objs ktd b = (Inr ktd', b')"
proof (induction objs arbitrary: ktd b)
  case Nil then show ?case by simp
next
  case (Cons key objs)
  show ?case
    using Cons.IH[OF Cons.prems] batchDelete_deletes_ok[OF Cons.prems]
    by (simp add: Let_def split: sum.splits)
qed

lemma truncate_pages_deletes_ok:
  "deletes_ok env \<Longrightarrow> \<not> (\<exists>j<length pages. list_fails env (i + j)) \<Longrightarrow>
     \<exists>ktd' b'. truncate_pages env k i pages ktd b = (Inr ktd', b')"
proof (induction pages arbitrary: i ktd b)
  case Nil then show ?case by simp
next
  case (Cons page rest)
  have e: "(\<exists>j<length (page # rest). list_fails env (i + j)) \<longleftrightarrow>
           list_fails env i \<or> (\<exists>j<length rest. list_fails env (Suc i + j))"
    using ex_less_Suc_shift[of "length rest" "list_fails env" i] by simp
  from Cons.prems(2) have nf: "\<not> list_fails env i"
    and nf': "\<not> (\<exists>j<length rest. list_fails env (Suc i + j))" unfolding e by auto
  from truncate_objs_deletes_ok[OF Cons.prems(1)] obtain ktd1 b1 where
    "truncate_objs env k page ktd b = (Inr ktd1, b1)" by blast
  with Cons.IH[OF Cons.prems(1) nf', of ktd1 b1] nf show ?case by simp
qed

lemma Truncate_deletes_ok:
  assumes "deletes_ok env"
    and "\<not> list_fault env (length (ListObjectsV2 env b (prefix w @ ''/'')))"
  shows "Truncate env w b k =
     (Inr (), w\<lparr>length_w := k\<rparr>,
      remove_keys (filter (beyond k) (list_keys b (prefix w @ ''/''))) b)"
proof -
  let ?pages = "ListObjectsV2 env b (prefix w @ ''/'')"
  from assms(2) have "\<not> (\<exists>j<length ?pages. list_fails env (0 + j))"
    by (simp add: list_fault_def)
  from truncate_pages_deletes_ok[OF assms(1) this] obtain ktd b1 where
    tp: "truncate_pages env k 0 ?pages [] b = (Inr ktd, b1)" by blast
  have "\<exists>u w' b'. Truncate env w b k = (Inr u, w', b')"
    using tp batchDelete_deletes_ok[OF assms(1), of b1 ktd] by (simp add: Truncate_def)
  then obtain u w' b' where t: "Truncate env w b k = (Inr u, w', b')" by blast
  from Truncate_ok[OF t] t show ?thesis by simp
qed

lemma deletes_ok_no_faults [simp]: "deletes_ok no_faults"
  by (simp add: deletes_ok_def no_faults_def)

theorem truncate_result_witness:
  "Truncate no_faults (NewS3WAL ''bucket'' ''wal'') demo_bucket 1 =
     (Inr (), (NewS3WAL ''bucket'' ''wal'')\<lparr>length_w := 1\<rparr>,
      [(''wal/zzz'', []), (''other/7'', []),
       (''wal/00000000000000000001'', be64 1 @ [5] @ sha256 (be64 1 @ [5]))]) \<and>
   Read no_faults ((NewS3WAL ''bucket'' ''wal'')\<lparr>length_w := 1\<rparr>)
      [(''wal/zzz'', []), (''other/7'', []),
       (''wal/00000000000000000001'', be64 1 @ [5] @ sha256 (be64 1 @ [5]))] 2 =
     Inl (GetObjectError ''wal/00000000000000000002'' NoSuchKey) \<and>
   Read no_faults ((NewS3WAL ''bucket'' ''wal'')\<lparr>length_w := 1\<rparr>)
      [(''wal/zzz'', []), (''other/7'', []),
       (''wal/00000000000000000001'', be64 1 @ [5] @ sha256 (be64 1 @ [5]))] 1 =
     Inr \<lparr>Offset = 1, Data = [5]\<rparr> \<and>
   Recover no_faults ((NewS3WAL ''bucket'' ''wal'')\<lparr>length_w := 1\<rparr>)
      [(''wal/zzz'', []), (''other/7'', []),
       (''wal/00000000000000000001'', be64 1 @ [5] @ sha256 (be64 1 @ [5]))] =
     (Inr 1, (NewS3WAL ''bucket'' ''wal'')\<lparr>length_w := 1\<rparr>)"
proof -
  let ?w = "NewS3WAL ''bucket'' ''wal''"
  let ?b' = "[(''wal/zzz'', []), (''other/7'', []),
       (''wal/00000000000000000001'', be64 1 @ [5] @ sha256 (be64 1 @ [5]))] :: bucket"
  have k2: "getObjectKey ?w 2 = ''wal/00000000000000000002''" by code_simp
  have t: "Truncate no_faults ?w demo_bucket 1 = (Inr (), ?w\<lparr>length_w := 1\<rparr>, ?b')"
    by (simp add: Truncate_deletes_ok list_keys_demo beyond_def key_eval remove_keys_def
          demo_bucket_def has_prefix_def)
  have r1: "Read no_faults ?w demo_bucket 1 = Inr \<lparr>Offset = 1, Data = [5]\<rparr>"
    using parseRecord_framed[of "''wal/00000000000000000001''" 1 "[5]"]
    by (simp add: Read_def GetObject_def key_wal_1 no_faults_def demo_bucket_def)
  have present: "map_of demo_bucket (getObjectKey ?w 1) \<noteq> None"
    by (simp add: key_wal_1 demo_bucket_def)
  have nf: "\<not> list_fault no_faults
     (length (ListObjectsV2 no_faults ?b' (prefix (?w\<lparr>length_w := 1\<rparr>) @ ''/'')))" by simp
  have ng: "\<not> get_fails no_faults (getObjectKey (?w\<lparr>length_w := 1\<rparr>) 2)"
    by (simp add: no_faults_def)
  from truncate_result[OF t] have
    gone: "Read no_faults (?w\<lparr>length_w := 1\<rparr>) ?b' 2 =
             Inl (GetObjectError (getObjectKey (?w\<lparr>length_w := 1\<rparr>) 2) NoSuchKey)"
    and kept: "Read no_faults (?w\<lparr>length_w := 1\<rparr>) ?b' 1 = Read no_faults ?w demo_bucket 1"
    and rec: "\<exists>m. Recover no_faults (?w\<lparr>length_w := 1\<rparr>) ?b' =
                 (Inr m, ?w\<lparr>length_w := 1, length_w := m\<rparr>) \<and> m \<le> 1 \<and>
                 (map_of demo_bucket (getObjectKey ?w 1) \<noteq> None \<longrightarrow> m = 1)"
    using ng nf by auto
  from rec present have "Recover no_faults (?w\<lparr>length_w := 1\<rparr>) ?b' = (Inr 1, ?w\<lparr>length_w := 1\<rparr>)"
    by auto
  with t gone kept r1 show ?thesis by (simp add: k2)
qed

text \<open>
  C2 as stated fails in its last part: \<open>Truncate\<close> after offset 5 on an empty log
  succeeds and caches 5, and \<open>Recover\<close> then returns 0.
\<close>

theorem truncate_recover_counterexample:
  "Truncate no_faults (NewS3WAL ''bucket'' ''wal'') [] 5 =
     (Inr (), (NewS3WAL ''bucket'' ''wal'')\<lparr>length_w := 5\<rparr>, []) \<and>
   Recover no_faults ((NewS3WAL ''bucket'' ''wal'')\<lparr>length_w := 5\<rparr>) [] =
     (Inr 0, (NewS3WAL ''bucket'' ''wal'')\<lparr>length_w := 0\<rparr>)"
  by (simp add: Truncate_deletes_ok Recover_eq)

section \<open>The offsets of a log\<close>































end
